theory Spec2Isabelle
  imports Main "HOL-Library.Sublist"
begin

section \<open>The character stream\<close>

text \<open>
  \<^verbatim>\<open>char_gen\<close> of \<^verbatim>\<open>categorize_arxiv.py\<close> is a generator over a string: it holds the
  string and a counter \<^verbatim>\<open>i\<close>, yields \<^verbatim>\<open>tex_contents[i]\<close> while
  \<^verbatim>\<open>i <= len(tex_contents)-1\<close> and then stops. The generator object is modelled by
  its two variables; \<^verbatim>\<open>next\<close> returns the character together with the advanced
  generator, and \<open>None\<close> stands for \<^verbatim>\<open>StopIteration\<close>. A document is a \<open>string\<close>,
  a list of one-byte characters; the literals the scanners look for are ASCII, and the
  counter \<^verbatim>\<open>i\<close> only counts upwards from 0, so it is a natural number.
\<close>

record char_gen_state =
  tex_contents :: string
  gen_i :: nat

definition char_gen :: "string \<Rightarrow> char_gen_state" where
  "char_gen d = \<lparr>tex_contents = d, gen_i = 0\<rparr>"

definition next_char :: "char_gen_state \<Rightarrow> (char \<times> char_gen_state) option" where
  "next_char g =
     (if int (gen_i g) \<le> int (length (tex_contents g)) - 1
      then Some (tex_contents g ! gen_i g, g\<lparr>gen_i := gen_i g + 1\<rparr>)
      else None)"

section \<open>Exceptions, list lookup and scan outcomes\<close>

text \<open>
  The scanners use \<^verbatim>\<open>list.index\<close> (raises \<^verbatim>\<open>ValueError\<close> when no element is
  equal to the argument) and list subscripts (raise \<^verbatim>\<open>IndexError\<close> out of range).
  Both are branches of the model.
\<close>

datatype py_error = ValueError | IndexError

fun list_index :: "'a list \<Rightarrow> 'a \<Rightarrow> nat option" where
  "list_index [] x = None"
| "list_index (y # ys) x = (if y = x then Some 0 else map_option Suc (list_index ys x))"

text \<open>
  One pass through the body of \<^verbatim>\<open>while True\<close> either raises, returns the triple
  \<^verbatim>\<open>(found, start, end)\<close>, or falls through to the next iteration with new locals.
\<close>

datatype 's outcome = Raise py_error | Return bool int int | Next 's

section \<open>check\_abstract\<close>

definition commands :: "string list" where
  "commands = [CHR 0x5C # ''begin{abstract}'', CHR 0x5C # ''abstract{'']"

definition terminates :: "string list" where
  "terminates = [CHR 0x5C # ''end{abstract}'', ''}'']"

text \<open>
  The locals of \<^verbatim>\<open>check_abstract\<close> that live across iterations. \<^verbatim>\<open>end\<close> is assigned
  from \<^verbatim>\<open>index\<close> directly before each \<^verbatim>\<open>return\<close>, so the returned triple reads
  \<^verbatim>\<open>index\<close> in its place.
\<close>

record abstract_state =
  word_seqs :: "string list"
  term_seq :: string
  command_found :: int
  nb_brackets :: int
  abstract :: bool
  index :: int
  start :: int

definition abstract_init :: abstract_state where
  "abstract_init =
     \<lparr>word_seqs = [[], []], term_seq = [], command_found = -1, nb_brackets = 0,
      abstract = False, index = 0, start = -1\<rparr>"

text \<open>
  The body of \<^verbatim>\<open>for word_seq in word_seqs\<close> for the list at position \<open>k\<close>. The source
  finds the pattern number with \<^verbatim>\<open>word_seqs.index(word_seq)\<close>, which compares by value:
  it is the first position holding a list equal to the current one. The append and the
  \<^verbatim>\<open>pop(0)\<close> change the list at position \<open>k\<close>.
\<close>

definition scan_word_seq :: "char \<Rightarrow> nat \<Rightarrow> abstract_state \<Rightarrow> py_error + abstract_state" where
  "scan_word_seq char k s =
     (let word_seq = word_seqs s ! k in
      case list_index (word_seqs s) word_seq of
        None \<Rightarrow> Inl ValueError
      | Some seq_index \<Rightarrow>
          if length commands \<le> seq_index then Inl IndexError
          else
            let window_size = length (commands ! seq_index);
                word_seq = word_seq @ [char];
                word_seq = (if length word_seq > window_size then tl word_seq else word_seq);
                s = s\<lparr>word_seqs := (word_seqs s)[k := word_seq]\<rparr>
            in if word_seq = commands ! seq_index
               then Inr (s\<lparr>abstract := True,
                           start := index s - int window_size,
                           command_found := int seq_index\<rparr>)
               else Inr s)"

fun scan_word_seqs :: "char \<Rightarrow> nat list \<Rightarrow> abstract_state \<Rightarrow> py_error + abstract_state" where
  "scan_word_seqs char [] s = Inr s"
| "scan_word_seqs char (k # ks) s =
     (case scan_word_seq char k s of
        Inl e \<Rightarrow> Inl e
      | Inr s' \<Rightarrow> scan_word_seqs char ks s')"

text \<open>The block under \<^verbatim>\<open>if abstract is True\<close>: keyword window or brace counter.\<close>

definition find_end :: "char \<Rightarrow> abstract_state \<Rightarrow> abstract_state outcome" where
  "find_end char s =
     (if command_found s = 0 then
        (let ts = term_seq s @ [char];
             window_size = length (terminates ! 0);
             ts = (if length ts > window_size then tl ts else ts);
             s = s\<lparr>term_seq := ts\<rparr>
         in if ts = terminates ! 0
            then Return (abstract s) (start s) (index s)
            else Next s)
      else if command_found s = 1 then
        (let s = (if char = CHR ''{'' then s\<lparr>nb_brackets := nb_brackets s + 1\<rparr> else s);
             s = (if char = CHR ''}'' then s\<lparr>nb_brackets := nb_brackets s - 1\<rparr> else s)
         in if nb_brackets s \<le> 0
            then Return (abstract s) (start s) (index s)
            else Next s)
      else Next s)"

text \<open>
  One iteration after \<^verbatim>\<open>next(tex_seq)\<close> has delivered \<open>char\<close>; \<^verbatim>\<open>len(char)\<close> is the
  length of a one-character string.
\<close>

definition abstract_body :: "char \<Rightarrow> abstract_state \<Rightarrow> abstract_state outcome" where
  "abstract_body char s0 =
     (let s = s0\<lparr>index := index s0 + int (length [char])\<rparr> in
      case (if \<not> abstract s
            then scan_word_seqs char [0..<length (word_seqs s)] s
            else Inr s) of
        Inl e \<Rightarrow> Raise e
      | Inr s \<Rightarrow> if abstract s then find_end char s else Next s)"

function abstract_loop :: "abstract_state \<Rightarrow> char_gen_state \<Rightarrow> py_error + (bool \<times> int \<times> int)" where
  "abstract_loop s g =
     (case next_char g of
        None \<Rightarrow> Inr (False, -1, -1)
      | Some (char, g') \<Rightarrow>
          (case abstract_body char s of
             Raise e \<Rightarrow> Inl e
           | Return a b c \<Rightarrow> Inr (a, b, c)
           | Next s' \<Rightarrow> abstract_loop s' g'))"
  by pat_completeness auto
termination
  by (relation "measure (\<lambda>(s, g). length (tex_contents g) - gen_i g)")
     (auto simp: next_char_def split: if_splits)

definition check_abstract :: "string \<Rightarrow> py_error + (bool \<times> int \<times> int)" where
  "check_abstract d = abstract_loop abstract_init (char_gen d)"


text \<open>
  The same loop with an iteration budget: \<open>None\<close> means the budget ran out before the
  loop returned. Each unit of fuel pays for one call of \<^verbatim>\<open>next\<close>.
\<close>

fun abstract_fuel ::
  "nat \<Rightarrow> abstract_state \<Rightarrow> char_gen_state \<Rightarrow> (py_error + (bool \<times> int \<times> int)) option" where
  "abstract_fuel 0 s g = None"
| "abstract_fuel (Suc n) s g =
     (case next_char g of
        None \<Rightarrow> Some (Inr (False, -1, -1))
      | Some (char, g') \<Rightarrow>
          (case abstract_body char s of
             Raise e \<Rightarrow> Some (Inl e)
           | Return a b c \<Rightarrow> Some (Inr (a, b, c))
           | Next s' \<Rightarrow> abstract_fuel n s' g'))"

section \<open>check\_document\<close>

definition doc_commands :: "string list" where
  "doc_commands = [CHR 0x5C # ''begin{document}'']"

definition doc_terminates :: "string list" where
  "doc_terminates = [CHR 0x5C # ''end{document}'']"

record document_state =
  word_seq :: string
  doc_term_seq :: string
  doc :: bool
  doc_index :: int
  doc_start :: int

definition document_init :: document_state where
  "document_init =
     \<lparr>word_seq = [], doc_term_seq = [], doc = False, doc_index = 0, doc_start = -1\<rparr>"

definition find_command :: "char \<Rightarrow> document_state \<Rightarrow> document_state" where
  "find_command char s =
     (let ws = word_seq s @ [char];
          window_size = length (doc_commands ! 0);
          ws = (if length ws > window_size then tl ws else ws);
          s = s\<lparr>word_seq := ws\<rparr>
      in if ws = doc_commands ! 0
         then s\<lparr>doc := True, doc_start := doc_index s - int window_size\<rparr>
         else s)"

definition find_doc_end :: "char \<Rightarrow> document_state \<Rightarrow> document_state outcome" where
  "find_doc_end char s =
     (let ts = doc_term_seq s @ [char];
          window_size = length (doc_terminates ! 0);
          ts = (if length ts > window_size then tl ts else ts);
          s = s\<lparr>doc_term_seq := ts\<rparr>
      in if ts = doc_terminates ! 0
         then Return (doc s) (doc_start s) (doc_index s)
         else Next s)"

definition document_body :: "char \<Rightarrow> document_state \<Rightarrow> document_state outcome" where
  "document_body char s0 =
     (let s = s0\<lparr>doc_index := doc_index s0 + int (length [char])\<rparr>;
          s = (if \<not> doc s then find_command char s else s)
      in if doc s then find_doc_end char s else Next s)"

function document_loop :: "document_state \<Rightarrow> char_gen_state \<Rightarrow> py_error + (bool \<times> int \<times> int)" where
  "document_loop s g =
     (case next_char g of
        None \<Rightarrow> Inr (False, -1, -1)
      | Some (char, g') \<Rightarrow>
          (case document_body char s of
             Raise e \<Rightarrow> Inl e
           | Return a b c \<Rightarrow> Inr (a, b, c)
           | Next s' \<Rightarrow> document_loop s' g'))"
  by pat_completeness auto
termination
  by (relation "measure (\<lambda>(s, g). length (tex_contents g) - gen_i g)")
     (auto simp: next_char_def split: if_splits)

definition check_document :: "string \<Rightarrow> py_error + (bool \<times> int \<times> int)" where
  "check_document d = document_loop document_init (char_gen d)"

fun document_fuel ::
  "nat \<Rightarrow> document_state \<Rightarrow> char_gen_state \<Rightarrow> (py_error + (bool \<times> int \<times> int)) option" where
  "document_fuel 0 s g = None"
| "document_fuel (Suc n) s g =
     (case next_char g of
        None \<Rightarrow> Some (Inr (False, -1, -1))
      | Some (char, g') \<Rightarrow>
          (case document_body char s of
             Raise e \<Rightarrow> Some (Inl e)
           | Return a b c \<Rightarrow> Some (Inr (a, b, c))
           | Next s' \<Rightarrow> document_fuel n s' g'))"

section \<open>Auxiliary notions for the proofs\<close>

text \<open>
  The effect of the loop body on a whole stretch of characters, read left to right: once an
  iteration has returned or raised, the outcome stays.
\<close>

fun abstract_steps :: "abstract_state outcome \<Rightarrow> string \<Rightarrow> abstract_state outcome" where
  "abstract_steps (Next s) (c # cs) = abstract_steps (abstract_body c s) cs"
| "abstract_steps (Next s) [] = Next s"
| "abstract_steps (Raise e) cs = Raise e"
| "abstract_steps (Return a b c) cs = Return a b c"

fun document_steps :: "document_state outcome \<Rightarrow> string \<Rightarrow> document_state outcome" where
  "document_steps (Next s) (c # cs) = document_steps (document_body c s) cs"
| "document_steps (Next s) [] = Next s"
| "document_steps (Raise e) cs = Raise e"
| "document_steps (Return a b c) cs = Return a b c"

text \<open>What the loop hands back when the generator stops at the given outcome.\<close>

fun at_stop :: "'s outcome \<Rightarrow> py_error + (bool \<times> int \<times> int)" where
  "at_stop (Raise e) = Inl e"
| "at_stop (Return a b c) = Inr (a, b, c)"
| "at_stop (Next s) = Inr (False, -1, -1)"

text \<open>The last \<open>k\<close> elements of a list: the content of a sliding window of size \<open>k\<close>.\<close>

definition lastn :: "nat \<Rightarrow> 'a list \<Rightarrow> 'a list" where
  "lastn k xs = drop (length xs - k) xs"

text \<open>
  The locals of \<^verbatim>\<open>check_abstract\<close> after the characters \<open>p\<close> when no command has been
  recognised, while the keyword window runs over \<open>q\<close>, and while braces are counted.
\<close>

definition searching :: "string \<Rightarrow> abstract_state" where
  "searching p =
     \<lparr>word_seqs = [lastn 16 p, lastn 10 p], term_seq = [], command_found = -1,
      nb_brackets = 0, abstract = False, index = int (length p), start = -1\<rparr>"

definition in_keyword :: "string list \<Rightarrow> string \<Rightarrow> int \<Rightarrow> int \<Rightarrow> abstract_state" where
  "in_keyword ws q st n =
     \<lparr>word_seqs = ws, term_seq = lastn 14 q, command_found = 0,
      nb_brackets = 0, abstract = True, index = n, start = st\<rparr>"

definition in_braces :: "string list \<Rightarrow> int \<Rightarrow> int \<Rightarrow> int \<Rightarrow> abstract_state" where
  "in_braces ws b st n =
     \<lparr>word_seqs = ws, term_seq = [], command_found = 1,
      nb_brackets = b, abstract = True, index = n, start = st\<rparr>"

definition doc_searching :: "string \<Rightarrow> document_state" where
  "doc_searching p =
     \<lparr>word_seq = lastn 16 p, doc_term_seq = [], doc = False,
      doc_index = int (length p), doc_start = -1\<rparr>"

definition doc_in_keyword :: "string \<Rightarrow> string \<Rightarrow> int \<Rightarrow> int \<Rightarrow> document_state" where
  "doc_in_keyword w q st n =
     \<lparr>word_seq = w, doc_term_seq = lastn 14 q, doc = True, doc_index = n, doc_start = st\<rparr>"

text \<open>
  Brace counting as the \<^verbatim>\<open>\abstract{\<close> branch does it: \<open>brace_step\<close> is the change of
  \<^verbatim>\<open>nb_brackets\<close> for one character, and \<open>stays_open b cs\<close> says that a counter at
  \<open>b\<close> stays positive after each character of \<open>cs\<close>.
\<close>

definition brace_step :: "char \<Rightarrow> int" where
  "brace_step c = (if c = CHR ''{'' then 1 else 0) - (if c = CHR ''}'' then 1 else 0)"

fun brace_balance :: "string \<Rightarrow> int" where
  "brace_balance [] = 0"
| "brace_balance (c # cs) = brace_step c + brace_balance cs"

fun stays_open :: "int \<Rightarrow> string \<Rightarrow> bool" where
  "stays_open b [] = True"
| "stays_open b (c # cs) = (0 < b + brace_step c \<and> stays_open (b + brace_step c) cs)"

text \<open>The invariant of \<^verbatim>\<open>ScanResult\<close> for a document of the given length.\<close>

definition scan_result_ok :: "nat \<Rightarrow> bool \<times> int \<times> int \<Rightarrow> bool" where
  "scan_result_ok len r =
     (case r of (found, st, en) \<Rightarrow>
        (\<not> found \<longrightarrow> st = -1 \<and> en = -1) \<and>
        (found \<longrightarrow> 0 \<le> st \<and> st < en \<and> en \<le> int len))"

text \<open>
  An outcome that respects the invariant for a document of \<open>N\<close> characters: nothing
  raised, and a returned triple has \<open>found\<close> set with \<open>0 \<le> start < end \<le> N\<close>.
\<close>

fun outcome_ok :: "int \<Rightarrow> 's outcome \<Rightarrow> bool" where
  "outcome_ok N (Raise e) = False"
| "outcome_ok N (Return a b c) = (a \<and> 0 \<le> b \<and> b < c \<and> c \<le> N)"
| "outcome_ok N (Next s) = True"

text \<open>
  The text between \<^verbatim>\<open>\abstract{\<close> and its closing brace has balanced braces: no prefix
  closes more than it opens, and the whole text closes all it opens.
\<close>

definition inner_balanced :: "string \<Rightarrow> bool" where
  "inner_balanced content \<longleftrightarrow> stays_open 1 content \<and> brace_balance content = 0"

section \<open>The abstract scanner over a given pattern list\<close>

text \<open>
  \<^verbatim>\<open>check_abstract\<close> once more, with the local list \<^verbatim>\<open>commands\<close> turned into the
  parameter \<open>cmds\<close> and nothing else changed (the block under
  \<^verbatim>\<open>if abstract is True\<close> does not read \<^verbatim>\<open>commands\<close>). At \<open>cmds = commands\<close> this is
  \<^verbatim>\<open>check_abstract\<close> itself; other lists show how the \<^verbatim>\<open>for\<close> loop treats patterns that
  complete at the same character.
\<close>

definition scan_word_seq_with ::
  "string list \<Rightarrow> char \<Rightarrow> nat \<Rightarrow> abstract_state \<Rightarrow> py_error + abstract_state" where
  "scan_word_seq_with cmds char k s =
     (let word_seq = word_seqs s ! k in
      case list_index (word_seqs s) word_seq of
        None \<Rightarrow> Inl ValueError
      | Some seq_index \<Rightarrow>
          if length cmds \<le> seq_index then Inl IndexError
          else
            let window_size = length (cmds ! seq_index);
                word_seq = word_seq @ [char];
                word_seq = (if length word_seq > window_size then tl word_seq else word_seq);
                s = s\<lparr>word_seqs := (word_seqs s)[k := word_seq]\<rparr>
            in if word_seq = cmds ! seq_index
               then Inr (s\<lparr>abstract := True,
                           start := index s - int window_size,
                           command_found := int seq_index\<rparr>)
               else Inr s)"

fun scan_word_seqs_with ::
  "string list \<Rightarrow> char \<Rightarrow> nat list \<Rightarrow> abstract_state \<Rightarrow> py_error + abstract_state" where
  "scan_word_seqs_with cmds char [] s = Inr s"
| "scan_word_seqs_with cmds char (k # ks) s =
     (case scan_word_seq_with cmds char k s of
        Inl e \<Rightarrow> Inl e
      | Inr s' \<Rightarrow> scan_word_seqs_with cmds char ks s')"

definition abstract_body_with :: "string list \<Rightarrow> char \<Rightarrow> abstract_state \<Rightarrow> abstract_state outcome" where
  "abstract_body_with cmds char s0 =
     (let s = s0\<lparr>index := index s0 + int (length [char])\<rparr> in
      case (if \<not> abstract s
            then scan_word_seqs_with cmds char [0..<length (word_seqs s)] s
            else Inr s) of
        Inl e \<Rightarrow> Raise e
      | Inr s \<Rightarrow> if abstract s then find_end char s else Next s)"

function abstract_loop_with ::
  "string list \<Rightarrow> abstract_state \<Rightarrow> char_gen_state \<Rightarrow> py_error + (bool \<times> int \<times> int)" where
  "abstract_loop_with cmds s g =
     (case next_char g of
        None \<Rightarrow> Inr (False, -1, -1)
      | Some (char, g') \<Rightarrow>
          (case abstract_body_with cmds char s of
             Raise e \<Rightarrow> Inl e
           | Return a b c \<Rightarrow> Inr (a, b, c)
           | Next s' \<Rightarrow> abstract_loop_with cmds s' g'))"
  by pat_completeness auto
termination
  by (relation "measure (\<lambda>(cmds, s, g). length (tex_contents g) - gen_i g)")
     (auto simp: next_char_def split: if_splits)


text \<open>The parameterised loop body over a stretch of characters, left to right.\<close>

fun abstract_steps_with ::
  "string list \<Rightarrow> abstract_state outcome \<Rightarrow> string \<Rightarrow> abstract_state outcome" where
  "abstract_steps_with cmds (Next s) (c # cs) = abstract_steps_with cmds (abstract_body_with cmds c s) cs"
| "abstract_steps_with cmds (Next s) [] = Next s"
| "abstract_steps_with cmds (Raise e) cs = Raise e"
| "abstract_steps_with cmds (Return a b c) cs = Return a b c"


section \<open>Basic facts\<close>

declare abstract_loop.simps [simp del] document_loop.simps [simp del]
  abstract_loop_with.simps [simp del]

subsection \<open>Sliding windows\<close>

lemma length_lastn: "length (lastn k xs) = min k (length xs)"
  by (simp add: lastn_def)

lemma lastn_Nil: "lastn k [] = []"
  by (simp add: lastn_def)

lemma lastn_snoc:
  "(if k < length (lastn k p @ [c]) then tl (lastn k p @ [c]) else lastn k p @ [c])
     = lastn k (p @ [c])"
proof -
  consider "k = 0" | "0 < k" "k \<le> length p" | "length p < k" by linarith
  then show ?thesis
  proof cases
    case 1
    then show ?thesis by (simp add: lastn_def)
  next
    case 2
    then have "lastn k (p @ [c]) = drop (Suc (length p - k)) p @ [c]"
      by (simp add: lastn_def Suc_diff_le)
    also have "\<dots> = tl (drop (length p - k) p) @ [c]"
      by (simp add: drop_Suc tl_drop)
    also have "\<dots> = tl (lastn k p @ [c])"
      using 2 by (cases "drop (length p - k) p") (simp_all add: lastn_def)
    finally show ?thesis using 2 by (simp add: length_lastn)
  next
    case 3
    then show ?thesis by (simp add: lastn_def)
  qed
qed

lemma lastn_eq_iff_suffix: "length w = k \<Longrightarrow> lastn k xs = w \<longleftrightarrow> suffix w xs"
proof
  assume "length w = k" "lastn k xs = w"
  then show "suffix w xs" unfolding lastn_def by (metis suffix_drop)
next
  assume k: "length w = k" and "suffix w xs"
  then obtain zs where "xs = zs @ w" by (auto simp: suffix_def)
  with k show "lastn k xs = w" by (simp add: lastn_def)
qed

subsection \<open>The loops as left-to-right passes\<close>

lemma abstract_loop_steps:
  "abstract_loop s g = at_stop (abstract_steps (Next s) (drop (gen_i g) (tex_contents g)))"
proof (induction s g rule: abstract_loop.induct)
  case (1 s g)
  show ?case
  proof (cases "gen_i g < length (tex_contents g)")
    case False
    then show ?thesis by (subst abstract_loop.simps) (simp add: next_char_def)
  next
    case True
    let ?c = "tex_contents g ! gen_i g" and ?g = "g\<lparr>gen_i := gen_i g + 1\<rparr>"
    have nx: "next_char g = Some (?c, ?g)" using True by (simp add: next_char_def)
    have dr: "drop (gen_i g) (tex_contents g) = ?c # drop (gen_i ?g) (tex_contents ?g)"
      using True by (simp add: Cons_nth_drop_Suc)
    show ?thesis
    proof (cases "abstract_body ?c s")
      case (Next s')
      from "1.IH"[OF nx refl Next] Next nx dr show ?thesis
        by (subst abstract_loop.simps) simp
    qed (subst abstract_loop.simps, simp add: nx dr)+
  qed
qed

lemma check_abstract_steps: "check_abstract d = at_stop (abstract_steps (Next abstract_init) d)"
  unfolding check_abstract_def abstract_loop_steps by (simp add: char_gen_def)

lemma document_loop_steps:
  "document_loop s g = at_stop (document_steps (Next s) (drop (gen_i g) (tex_contents g)))"
proof (induction s g rule: document_loop.induct)
  case (1 s g)
  show ?case
  proof (cases "gen_i g < length (tex_contents g)")
    case False
    then show ?thesis by (subst document_loop.simps) (simp add: next_char_def)
  next
    case True
    let ?c = "tex_contents g ! gen_i g" and ?g = "g\<lparr>gen_i := gen_i g + 1\<rparr>"
    have nx: "next_char g = Some (?c, ?g)" using True by (simp add: next_char_def)
    have dr: "drop (gen_i g) (tex_contents g) = ?c # drop (gen_i ?g) (tex_contents ?g)"
      using True by (simp add: Cons_nth_drop_Suc)
    show ?thesis
    proof (cases "document_body ?c s")
      case (Next s')
      from "1.IH"[OF nx refl Next] Next nx dr show ?thesis
        by (subst document_loop.simps) simp
    qed (subst document_loop.simps, simp add: nx dr)+
  qed
qed

lemma check_document_steps: "check_document d = at_stop (document_steps (Next document_init) d)"
  unfolding check_document_def document_loop_steps by (simp add: char_gen_def)

lemma abstract_steps_append:
  "abstract_steps out (xs @ ys) = abstract_steps (abstract_steps out xs) ys"
  by (induction out xs rule: abstract_steps.induct) simp_all

lemma document_steps_append:
  "document_steps out (xs @ ys) = document_steps (document_steps out xs) ys"
  by (induction out xs rule: document_steps.induct) simp_all


subsection \<open>The literals\<close>

lemma commands_facts:
  "length commands = 2"
  "length (commands ! 0) = 16"
  "length (commands ! Suc 0) = 10"
  "last (commands ! 0) = CHR ''}''"
  "last (commands ! Suc 0) = CHR ''{''"
  "length (terminates ! 0) = 14"
  "hd (terminates ! 0) = CHR 0x5C"
  by (simp_all add: commands_def terminates_def)

lemma doc_commands_facts:
  "length (doc_commands ! 0) = 16"
  "last (doc_commands ! 0) = CHR ''}''"
  "length (doc_terminates ! 0) = 14"
  "hd (doc_terminates ! 0) = CHR 0x5C"
  by (simp_all add: doc_commands_def doc_terminates_def)

lemma suffix_snoc_last: "suffix w (p @ [c]) \<Longrightarrow> w \<noteq> [] \<Longrightarrow> c = last w"
  by (auto simp: suffix_def) (metis last_appendR last_snoc)

subsection \<open>One iteration while searching\<close>

lemma window_push:
  "(if 15 < length (lastn 16 p) then tl (lastn 16 p @ [c]) else lastn 16 p @ [c])
     = lastn 16 (p @ [c])"
  "(if 9 < length (lastn 10 p) then tl (lastn 10 p @ [c]) else lastn 10 p @ [c])
     = lastn 10 (p @ [c])"
  "(if 13 < length (lastn 14 p) then tl (lastn 14 p @ [c]) else lastn 14 p @ [c])
     = lastn 14 (p @ [c])"
  using lastn_snoc[of 16 p c] lastn_snoc[of 10 p c] lastn_snoc[of 14 p c] by simp_all

lemma scan_word_seq_0:
  assumes "word_seqs s = [lastn 16 p, w1]"
  shows "scan_word_seq c 0 s =
    Inr (if lastn 16 (p @ [c]) = commands ! 0
         then s\<lparr>word_seqs := [lastn 16 (p @ [c]), w1], abstract := True,
                 start := index s - 16, command_found := 0\<rparr>
         else s\<lparr>word_seqs := [lastn 16 (p @ [c]), w1]\<rparr>)"
proof -
  show ?thesis
    unfolding scan_word_seq_def
    by (simp add: assms commands_facts Let_def window_push)
qed

lemma scan_word_seq_1:
  assumes "word_seqs s = [lastn 16 (p @ [c]), lastn 10 p]"
  shows "scan_word_seq c (Suc 0) s =
    Inr (if lastn 10 (p @ [c]) = commands ! 1
         then s\<lparr>word_seqs := [lastn 16 (p @ [c]), lastn 10 (p @ [c])], abstract := True,
                 start := index s - 10, command_found := 1\<rparr>
         else s\<lparr>word_seqs := [lastn 16 (p @ [c]), lastn 10 (p @ [c])]\<rparr>)"
proof -
  have "length (lastn 16 (p @ [c])) \<noteq> length (lastn 10 p)"
    by (simp add: length_lastn)
  then have ne: "lastn 16 (p @ [c]) \<noteq> lastn 10 p" by metis
  show ?thesis
    unfolding scan_word_seq_def
    by (simp add: assms ne commands_facts Let_def window_push)
qed

lemma not_both_complete:
  "\<not> (lastn 16 q = commands ! 0 \<and> lastn 10 q = commands ! 1)"
proof
  assume a: "lastn 16 q = commands ! 0 \<and> lastn 10 q = commands ! 1"
  then have "suffix (commands ! 0) q" "suffix (commands ! 1) q"
    by (simp_all add: lastn_eq_iff_suffix[symmetric] commands_facts)
  then have "last q = last (commands ! 0)" "last q = last (commands ! 1)"
    by (auto simp: suffix_def commands_def)
  then show False by (simp add: commands_def)
qed

lemma scan_word_seqs_searching:
  "scan_word_seqs c [0..<length (word_seqs (searching p))]
       ((searching p)\<lparr>index := int (length p) + 1\<rparr>) =
    Inr (if lastn 16 (p @ [c]) = commands ! 0
         then (searching (p @ [c]))\<lparr>abstract := True,
                  start := int (length p) + 1 - 16, command_found := 0\<rparr>
         else if lastn 10 (p @ [c]) = commands ! 1
         then (searching (p @ [c]))\<lparr>abstract := True,
                  start := int (length p) + 1 - 10, command_found := 1\<rparr>
         else searching (p @ [c]))"
proof -
  define s0 where "s0 = (searching p)\<lparr>index := int (length p) + 1\<rparr>"
  define s1 where "s1 = (if lastn 16 (p @ [c]) = commands ! 0
         then s0\<lparr>word_seqs := [lastn 16 (p @ [c]), lastn 10 p], abstract := True,
                 start := index s0 - 16, command_found := 0\<rparr>
         else s0\<lparr>word_seqs := [lastn 16 (p @ [c]), lastn 10 p]\<rparr>)"
  have up: "[0..<length (word_seqs (searching p))] = [0, Suc 0]"
    by (simp add: searching_def upt_rec)
  have "word_seqs s0 = [lastn 16 p, lastn 10 p]"
    by (simp add: s0_def searching_def)
  then have r0: "scan_word_seq c 0 s0 = Inr s1"
    unfolding s1_def by (rule scan_word_seq_0)
  have "word_seqs s1 = [lastn 16 (p @ [c]), lastn 10 p]"
    by (simp add: s1_def)
  note r1 = scan_word_seq_1[OF this]
  show ?thesis
    using not_both_complete[of "p @ [c]"]
    unfolding up s0_def[symmetric]
    by (simp add: r0 r1) (simp add: s1_def s0_def searching_def)
qed


lemma lastn_snoc_last:
  assumes "lastn k (p @ [c]) = w" and "length w = k" and "0 < k"
  shows "c = last w"
proof -
  from assms have "suffix w (p @ [c])" "w \<noteq> []"
    by (auto simp: lastn_eq_iff_suffix)
  then show ?thesis by (rule suffix_snoc_last)
qed

lemma abstract_body_searching:
  "abstract_body c (searching p) =
     Next (if lastn 16 (p @ [c]) = commands ! 0
           then in_keyword [lastn 16 (p @ [c]), lastn 10 (p @ [c])] [c]
                  (int (length p) + 1 - 16) (int (length p) + 1)
           else if lastn 10 (p @ [c]) = commands ! 1
           then in_braces [lastn 16 (p @ [c]), lastn 10 (p @ [c])] 1
                  (int (length p) + 1 - 10) (int (length p) + 1)
           else searching (p @ [c]))"
proof -
  have ix: "(searching p)\<lparr>index := index (searching p) + int (length [c])\<rparr>
              = (searching p)\<lparr>index := int (length p) + 1\<rparr>"
    by (simp add: searching_def)
  have ws: "word_seqs ((searching p)\<lparr>index := int (length p) + 1\<rparr>) = word_seqs (searching p)"
    by simp
  have na: "\<not> abstract ((searching p)\<lparr>index := int (length p) + 1\<rparr>)"
    by (simp add: searching_def)
  consider (kw) "lastn 16 (p @ [c]) = commands ! 0"
    | (br) "lastn 16 (p @ [c]) \<noteq> commands ! 0" "lastn 10 (p @ [c]) = commands ! 1"
    | (no) "lastn 16 (p @ [c]) \<noteq> commands ! 0" "lastn 10 (p @ [c]) \<noteq> commands ! 1"
    by blast
  then show ?thesis
  proof cases
    case kw
    then show ?thesis
      unfolding abstract_body_def Let_def ix
      by (simp add: na ws scan_word_seqs_searching)
         (simp add: searching_def find_end_def in_keyword_def terminates_def lastn_def Let_def)
  next
    case br
    from br(2) have "c = last (commands ! 1)"
      by (rule lastn_snoc_last) (simp_all add: commands_facts)
    then have c: "c = CHR ''{''" by (simp add: commands_facts)
    from br show ?thesis
      unfolding abstract_body_def Let_def ix
      by (simp add: na ws scan_word_seqs_searching)
         (simp add: searching_def find_end_def in_braces_def c Let_def)
  next
    case no
    then show ?thesis
      unfolding abstract_body_def Let_def ix
      by (simp add: na ws scan_word_seqs_searching) (simp add: searching_def)
  qed
qed

lemma abstract_body_in_keyword:
  "abstract_body c (in_keyword ws q st n) =
     (if lastn 14 (q @ [c]) = terminates ! 0 then Return True st (n + 1)
      else Next (in_keyword ws (q @ [c]) st (n + 1)))"
  by (simp add: abstract_body_def find_end_def in_keyword_def Let_def window_push commands_facts)

lemma abstract_body_in_braces:
  "abstract_body c (in_braces ws b st n) =
     (if b + brace_step c \<le> 0 then Return True st (n + 1)
      else Next (in_braces ws (b + brace_step c) st (n + 1)))"
  by (simp add: abstract_body_def find_end_def in_braces_def Let_def brace_step_def)

lemma abstract_body_armed:
  assumes "abstract s"
  shows "abstract_body c s = Return True (start s) (index s + 1) \<or>
         (\<exists>s'. abstract_body c s = Next s' \<and> abstract s' \<and> start s' = start s \<and>
               index s' = index s + 1)"
  using assms by (auto simp: abstract_body_def find_end_def Let_def)

lemma document_body_searching:
  "document_body c (doc_searching p) =
     Next (if lastn 16 (p @ [c]) = doc_commands ! 0
           then doc_in_keyword (lastn 16 (p @ [c])) [c]
                  (int (length p) + 1 - 16) (int (length p) + 1)
           else doc_searching (p @ [c]))"
  by (simp add: document_body_def find_command_def find_doc_end_def doc_searching_def
      doc_in_keyword_def Let_def window_push doc_commands_facts)
     (simp add: doc_terminates_def lastn_def)

lemma document_body_in_keyword:
  "document_body c (doc_in_keyword w q st n) =
     (if lastn 14 (q @ [c]) = doc_terminates ! 0 then Return True st (n + 1)
      else Next (doc_in_keyword w (q @ [c]) st (n + 1)))"
  by (simp add: document_body_def find_doc_end_def doc_in_keyword_def Let_def window_push
      doc_commands_facts)

lemma document_body_armed:
  assumes "doc s"
  shows "document_body c s = Return True (doc_start s) (doc_index s + 1) \<or>
         (\<exists>s'. document_body c s = Next s' \<and> doc s' \<and> doc_start s' = doc_start s \<and>
               doc_index s' = doc_index s + 1)"
  using assms by (auto simp: document_body_def find_doc_end_def Let_def)

subsection \<open>Stretches of iterations\<close>

lemma abstract_init_searching: "abstract_init = searching []"
  by (simp add: abstract_init_def searching_def lastn_def)

lemma document_init_searching: "document_init = doc_searching []"
  by (simp add: document_init_def doc_searching_def lastn_def)

lemma search_steps:
  assumes "\<And>q. prefix q xs \<Longrightarrow> q \<noteq> [] \<Longrightarrow>
             lastn 16 (p @ q) \<noteq> commands ! 0 \<and> lastn 10 (p @ q) \<noteq> commands ! 1"
  shows "abstract_steps (Next (searching p)) xs = Next (searching (p @ xs))"
  using assms
proof (induction xs arbitrary: p)
  case Nil
  show ?case by simp
next
  case (Cons c cs)
  have here: "lastn 16 (p @ [c]) \<noteq> commands ! 0 \<and> lastn 10 (p @ [c]) \<noteq> commands ! 1"
    using Cons.prems[of "[c]"] by simp
  have later: "lastn 16 ((p @ [c]) @ q) \<noteq> commands ! 0 \<and> lastn 10 ((p @ [c]) @ q) \<noteq> commands ! 1"
    if "prefix q cs" "q \<noteq> []" for q
    using Cons.prems[of "c # q"] that by simp
  show ?case
    using here Cons.IH[of "p @ [c]", OF later]
    by (simp add: abstract_body_searching)
qed

lemma keyword_steps:
  assumes "\<And>q. prefix q xs \<Longrightarrow> q \<noteq> [] \<Longrightarrow> lastn 14 (t @ q) \<noteq> terminates ! 0"
  shows "abstract_steps (Next (in_keyword ws t st n)) xs =
           Next (in_keyword ws (t @ xs) st (n + int (length xs)))"
  using assms
proof (induction xs arbitrary: t n)
  case Nil
  show ?case by simp
next
  case (Cons c cs)
  have here: "lastn 14 (t @ [c]) \<noteq> terminates ! 0"
    using Cons.prems[of "[c]"] by simp
  have later: "lastn 14 ((t @ [c]) @ q) \<noteq> terminates ! 0" if "prefix q cs" "q \<noteq> []" for q
    using Cons.prems[of "c # q"] that by simp
  show ?case
    using here Cons.IH[of "t @ [c]" "n + 1", OF later]
    by (simp add: abstract_body_in_keyword add.assoc)
qed

lemma brace_steps:
  assumes "stays_open b xs"
  shows "abstract_steps (Next (in_braces ws b st n)) xs =
           Next (in_braces ws (b + brace_balance xs) st (n + int (length xs)))"
  using assms
proof (induction xs arbitrary: b n)
  case Nil
  show ?case by simp
next
  case (Cons c cs)
  then show ?case
    using Cons.IH[of "b + brace_step c" "n + 1"]
    by (simp add: abstract_body_in_braces add.assoc)
qed

lemma doc_search_steps:
  assumes "\<And>q. prefix q xs \<Longrightarrow> q \<noteq> [] \<Longrightarrow> lastn 16 (p @ q) \<noteq> doc_commands ! 0"
  shows "document_steps (Next (doc_searching p)) xs = Next (doc_searching (p @ xs))"
  using assms
proof (induction xs arbitrary: p)
  case Nil
  show ?case by simp
next
  case (Cons c cs)
  have here: "lastn 16 (p @ [c]) \<noteq> doc_commands ! 0"
    using Cons.prems[of "[c]"] by simp
  have later: "lastn 16 ((p @ [c]) @ q) \<noteq> doc_commands ! 0" if "prefix q cs" "q \<noteq> []" for q
    using Cons.prems[of "c # q"] that by simp
  show ?case
    using here Cons.IH[of "p @ [c]", OF later]
    by (simp add: document_body_searching)
qed

lemma doc_keyword_steps:
  assumes "\<And>q. prefix q xs \<Longrightarrow> q \<noteq> [] \<Longrightarrow> lastn 14 (t @ q) \<noteq> doc_terminates ! 0"
  shows "document_steps (Next (doc_in_keyword w t st n)) xs =
           Next (doc_in_keyword w (t @ xs) st (n + int (length xs)))"
  using assms
proof (induction xs arbitrary: t n)
  case Nil
  show ?case by simp
next
  case (Cons c cs)
  have here: "lastn 14 (t @ [c]) \<noteq> doc_terminates ! 0"
    using Cons.prems[of "[c]"] by simp
  have later: "lastn 14 ((t @ [c]) @ q) \<noteq> doc_terminates ! 0" if "prefix q cs" "q \<noteq> []" for q
    using Cons.prems[of "c # q"] that by simp
  show ?case
    using here Cons.IH[of "t @ [c]" "n + 1", OF later]
    by (simp add: document_body_in_keyword add.assoc)
qed

subsection \<open>Windows and occurrences\<close>

lemma window_no_sublist:
  assumes "\<not> sublist w (p @ xs)" and "prefix q xs" and "length w = k"
  shows "lastn k (p @ q) \<noteq> w"
proof
  assume "lastn k (p @ q) = w"
  with assms(3) have "suffix w (p @ q)" by (simp add: lastn_eq_iff_suffix)
  moreover from assms(2) have "prefix (p @ q) (p @ xs)" by simp
  ultimately have "sublist w (p @ xs)" unfolding sublist_altdef by blast
  with assms(1) show False by contradiction
qed

lemma lastn_append_same: "length w = k \<Longrightarrow> lastn k (xs @ w) = w"
  by (simp add: lastn_def)

lemma no_overlap_sublist:
  assumes "\<not> sublist w pre" and "\<not> sublist w u"
    and "\<forall>x \<in> set (suffixes w). prefix x u \<longrightarrow> x = []"
  shows "\<not> sublist w (pre @ u)"
proof
  assume "sublist w (pre @ u)"
  then consider "sublist w pre" | "sublist w u"
    | xs1 xs2 where "w = xs1 @ xs2" "suffix xs1 pre" "prefix xs2 u"
    unfolding sublist_append by blast
  then show False
  proof cases
    case 3
    then have "xs2 \<in> set (suffixes w)" by (simp add: in_set_suffixes suffix_def)
    with assms(3) 3 have "xs2 = []" by blast
    with 3 have "suffix w pre" by simp
    with assms(1) show False by (auto simp: sublist_altdef)
  qed (use assms in simp_all)
qed

lemma literal_overlaps:
  "\<forall>x \<in> set (suffixes (commands ! 0)). prefix x (butlast (commands ! 0)) \<longrightarrow> x = []"
  "\<forall>x \<in> set (suffixes (commands ! 1)). prefix x (butlast (commands ! 0)) \<longrightarrow> x = []"
  "\<forall>x \<in> set (suffixes (commands ! 0)). prefix x (butlast (commands ! 1)) \<longrightarrow> x = []"
  "\<forall>x \<in> set (suffixes (commands ! 1)). prefix x (butlast (commands ! 1)) \<longrightarrow> x = []"
  "\<forall>x \<in> set (suffixes (terminates ! 0)). prefix x (butlast (terminates ! 0)) \<longrightarrow> x = []"
  "\<forall>x \<in> set (suffixes (doc_commands ! 0)). prefix x (butlast (doc_commands ! 0)) \<longrightarrow> x = []"
  "\<forall>x \<in> set (suffixes (doc_terminates ! 0)). prefix x (butlast (doc_terminates ! 0)) \<longrightarrow> x = []"
  by code_simp+

lemma literal_not_inside:
  "\<not> sublist (commands ! 0) (butlast (commands ! 0))"
  "\<not> sublist (commands ! 1) (butlast (commands ! 0))"
  "\<not> sublist (commands ! 0) (butlast (commands ! 1))"
  "\<not> sublist (commands ! 1) (butlast (commands ! 1))"
  "\<not> sublist (terminates ! 0) (butlast (terminates ! 0))"
  "\<not> sublist (doc_commands ! 0) (butlast (doc_commands ! 0))"
  "\<not> sublist (doc_terminates ! 0) (butlast (doc_terminates ! 0))"
  by code_simp+


subsection \<open>Reaching and leaving the armed states\<close>

lemma snoc_literal: "w \<noteq> [] \<Longrightarrow> pre @ w = (pre @ butlast w) @ [last w]"
  by simp

lemma reach_begin_abstract:
  assumes "\<not> sublist (commands ! 0) pre" and "\<not> sublist (commands ! 1) pre"
  shows "abstract_steps (Next abstract_init) (pre @ commands ! 0) =
           Next (in_keyword [lastn 16 (pre @ commands ! 0), lastn 10 (pre @ commands ! 0)]
                   [CHR ''}''] (int (length pre)) (int (length pre) + 16))"
proof -
  let ?xs = "pre @ butlast (commands ! 0)"
  have n0: "\<not> sublist (commands ! 0) ([] @ ?xs)"
    using no_overlap_sublist[OF assms(1) literal_not_inside(1) literal_overlaps(1)] by simp
  have n1: "\<not> sublist (commands ! 1) ([] @ ?xs)"
    using no_overlap_sublist[OF assms(2) literal_not_inside(2) literal_overlaps(2)] by simp
  have "abstract_steps (Next (searching [])) ?xs = Next (searching ([] @ ?xs))"
    by (rule search_steps)
       (use window_no_sublist[OF n0] window_no_sublist[OF n1] in \<open>simp add: commands_facts\<close>)
  moreover have split: "pre @ commands ! 0 = ?xs @ [last (commands ! 0)]"
    by (rule snoc_literal) (simp add: commands_def)
  moreover have "lastn 16 (?xs @ [last (commands ! 0)]) = commands ! 0"
    unfolding split[symmetric] by (rule lastn_append_same) (rule commands_facts)
  moreover have "int (length ?xs) = int (length pre) + 15"
    by (simp add: commands_facts)
  ultimately show ?thesis
    by (simp add: abstract_init_searching abstract_steps_append abstract_body_searching
        commands_facts add.commute del: append_assoc)
qed

lemma reach_abstract_brace:
  assumes "\<not> sublist (commands ! 0) pre" and "\<not> sublist (commands ! 1) pre"
  shows "abstract_steps (Next abstract_init) (pre @ commands ! 1) =
           Next (in_braces [lastn 16 (pre @ commands ! 1), lastn 10 (pre @ commands ! 1)]
                   1 (int (length pre)) (int (length pre) + 10))"
proof -
  let ?xs = "pre @ butlast (commands ! 1)"
  have n0: "\<not> sublist (commands ! 0) ([] @ ?xs)"
    using no_overlap_sublist[OF assms(1) literal_not_inside(3) literal_overlaps(3)] by simp
  have n1: "\<not> sublist (commands ! 1) ([] @ ?xs)"
    using no_overlap_sublist[OF assms(2) literal_not_inside(4) literal_overlaps(4)] by simp
  have "abstract_steps (Next (searching [])) ?xs = Next (searching ([] @ ?xs))"
    by (rule search_steps)
       (use window_no_sublist[OF n0] window_no_sublist[OF n1] in \<open>simp add: commands_facts\<close>)
  moreover have split: "pre @ commands ! 1 = ?xs @ [last (commands ! 1)]"
    by (rule snoc_literal) (simp add: commands_def)
  moreover have "lastn 10 (?xs @ [last (commands ! 1)]) = commands ! 1"
    unfolding split[symmetric] by (rule lastn_append_same) (simp add: commands_facts)
  moreover have "lastn 16 (?xs @ [last (commands ! 1)]) \<noteq> commands ! 0"
    using not_both_complete[of "?xs @ [last (commands ! 1)]"] calculation(3) by blast
  moreover have "int (length ?xs) = int (length pre) + 9"
    by (simp add: commands_facts)
  ultimately show ?thesis
    by (simp add: abstract_init_searching abstract_steps_append abstract_body_searching
        commands_facts add.commute del: append_assoc)
qed

lemma reach_begin_document:
  assumes "\<not> sublist (doc_commands ! 0) pre"
  shows "document_steps (Next document_init) (pre @ doc_commands ! 0) =
           Next (doc_in_keyword (lastn 16 (pre @ doc_commands ! 0))
                   [CHR ''}''] (int (length pre)) (int (length pre) + 16))"
proof -
  let ?xs = "pre @ butlast (doc_commands ! 0)"
  have n0: "\<not> sublist (doc_commands ! 0) ([] @ ?xs)"
    using no_overlap_sublist[OF assms(1) literal_not_inside(6) literal_overlaps(6)] by simp
  have "document_steps (Next (doc_searching [])) ?xs = Next (doc_searching ([] @ ?xs))"
    by (rule doc_search_steps)
       (use window_no_sublist[OF n0] in \<open>simp add: doc_commands_facts\<close>)
  moreover have split: "pre @ doc_commands ! 0 = ?xs @ [last (doc_commands ! 0)]"
    by (rule snoc_literal) (simp add: doc_commands_def)
  moreover have "lastn 16 (?xs @ [last (doc_commands ! 0)]) = doc_commands ! 0"
    unfolding split[symmetric] by (rule lastn_append_same) (rule doc_commands_facts)
  moreover have "int (length ?xs) = int (length pre) + 15"
    by (simp add: doc_commands_facts)
  ultimately show ?thesis
    by (simp add: document_init_searching document_steps_append document_body_searching
        doc_commands_facts add.commute del: append_assoc)
qed

lemma keyword_unfinished:
  assumes "\<not> sublist (terminates ! 0) rest"
  shows "abstract_steps (Next (in_keyword ws [CHR ''}''] st n)) rest =
           Next (in_keyword ws ([CHR ''}''] @ rest) st (n + int (length rest)))"
proof -
  have "\<not> prefix (terminates ! 0) (CHR ''}'' # rest)"
    by (simp add: terminates_def)
  with assms have "\<not> sublist (terminates ! 0) ([CHR ''}''] @ rest)"
    by (simp add: sublist_Cons_right)
  from window_no_sublist[OF this] show ?thesis
    by (intro keyword_steps) (simp add: commands_facts)
qed

lemma keyword_finish:
  assumes "\<not> sublist (terminates ! 0) body"
  shows "abstract_steps (Next (in_keyword ws [CHR ''}''] st n)) (body @ terminates ! 0 @ post) =
           Return True st (n + int (length body) + 14)"
proof -
  let ?xs = "body @ butlast (terminates ! 0)"
  have "\<not> sublist (terminates ! 0) ?xs"
    by (rule no_overlap_sublist[OF assms literal_not_inside(5) literal_overlaps(5)])
  note run = keyword_unfinished[OF this, of ws st n]
  have split: "body @ terminates ! 0 @ post = (?xs @ [last (terminates ! 0)]) @ post"
    by (simp add: terminates_def)
  have "([CHR ''}''] @ ?xs) @ [last (terminates ! 0)] = ([CHR ''}''] @ body) @ terminates ! 0"
    by (simp add: terminates_def)
  then have "lastn 14 (([CHR ''}''] @ ?xs) @ [last (terminates ! 0)]) = terminates ! 0"
    by (simp only: lastn_append_same commands_facts)
  moreover have "int (length ?xs) = int (length body) + 13"
    by (simp add: commands_facts)
  ultimately show ?thesis
    unfolding split abstract_steps_append[of _ _ post] abstract_steps_append[of _ ?xs] run
    by (simp add: abstract_body_in_keyword)
qed

lemma doc_keyword_unfinished:
  assumes "\<not> sublist (doc_terminates ! 0) rest"
  shows "document_steps (Next (doc_in_keyword w [CHR ''}''] st n)) rest =
           Next (doc_in_keyword w ([CHR ''}''] @ rest) st (n + int (length rest)))"
proof -
  have "\<not> prefix (doc_terminates ! 0) (CHR ''}'' # rest)"
    by (simp add: doc_terminates_def)
  with assms have "\<not> sublist (doc_terminates ! 0) ([CHR ''}''] @ rest)"
    by (simp add: sublist_Cons_right)
  from window_no_sublist[OF this] show ?thesis
    by (intro doc_keyword_steps) (simp add: doc_commands_facts)
qed

lemma doc_keyword_finish:
  assumes "\<not> sublist (doc_terminates ! 0) body"
  shows "document_steps (Next (doc_in_keyword w [CHR ''}''] st n))
           (body @ doc_terminates ! 0 @ post) =
         Return True st (n + int (length body) + 14)"
proof -
  let ?xs = "body @ butlast (doc_terminates ! 0)"
  have "\<not> sublist (doc_terminates ! 0) ?xs"
    by (rule no_overlap_sublist[OF assms literal_not_inside(7) literal_overlaps(7)])
  note run = doc_keyword_unfinished[OF this, of w st n]
  have split: "body @ doc_terminates ! 0 @ post = (?xs @ [last (doc_terminates ! 0)]) @ post"
    by (simp add: doc_terminates_def)
  have "([CHR ''}''] @ ?xs) @ [last (doc_terminates ! 0)]
          = ([CHR ''}''] @ body) @ doc_terminates ! 0"
    by (simp add: doc_terminates_def)
  then have "lastn 14 (([CHR ''}''] @ ?xs) @ [last (doc_terminates ! 0)]) = doc_terminates ! 0"
    by (simp only: lastn_append_same doc_commands_facts)
  moreover have "int (length ?xs) = int (length body) + 13"
    by (simp add: doc_commands_facts)
  ultimately show ?thesis
    unfolding split document_steps_append[of _ _ post] document_steps_append[of _ ?xs] run
    by (simp add: document_body_in_keyword)
qed

subsection \<open>Every outcome is well formed\<close>

lemma lastn_eq_length: "lastn k xs = w \<Longrightarrow> length w = k \<Longrightarrow> k \<le> length xs"
  by (auto simp: lastn_def)

lemma abstract_steps_ok:
  assumes "(\<exists>p. s = searching p) \<or> (abstract s \<and> 0 \<le> start s \<and> start s \<le> index s)"
  shows "outcome_ok (index s + int (length xs)) (abstract_steps (Next s) xs)"
  using assms
proof (induction xs arbitrary: s)
  case Nil
  show ?case by simp
next
  case (Cons c cs)
  from Cons.prems consider (search) p where "s = searching p"
    | (armed) "abstract s" "0 \<le> start s" "start s \<le> index s" by blast
  then show ?case
  proof cases
    case search
    let ?s' = "if lastn 16 (p @ [c]) = commands ! 0
           then in_keyword [lastn 16 (p @ [c]), lastn 10 (p @ [c])] [c]
                  (int (length p) + 1 - 16) (int (length p) + 1)
           else if lastn 10 (p @ [c]) = commands ! 1
           then in_braces [lastn 16 (p @ [c]), lastn 10 (p @ [c])] 1
                  (int (length p) + 1 - 10) (int (length p) + 1)
           else searching (p @ [c])"
    have body: "abstract_body c s = Next ?s'"
      unfolding search by (rule abstract_body_searching)
    have ix: "index ?s' = index s + 1"
      by (simp add: search searching_def in_keyword_def in_braces_def)
    have "(\<exists>q. ?s' = searching q) \<or> (abstract ?s' \<and> 0 \<le> start ?s' \<and> start ?s' \<le> index ?s')"
      using lastn_eq_length[of 16 "p @ [c]" "commands ! 0"]
        lastn_eq_length[of 10 "p @ [c]" "commands ! 1"]
      by (auto simp: in_keyword_def in_braces_def commands_facts)
    from Cons.IH[OF this] show ?thesis
      by (simp add: body ix add.assoc)
  next
    case armed
    from abstract_body_armed[OF armed(1), of c] show ?thesis
    proof
      assume "abstract_body c s = Return True (start s) (index s + 1)"
      with armed show ?thesis by simp
    next
      assume "\<exists>s'. abstract_body c s = Next s' \<and> abstract s' \<and> start s' = start s \<and>
               index s' = index s + 1"
      then obtain s' where s': "abstract_body c s = Next s'" "abstract s'"
        "start s' = start s" "index s' = index s + 1" by blast
      with armed have "(\<exists>p. s' = searching p) \<or>
          (abstract s' \<and> 0 \<le> start s' \<and> start s' \<le> index s')" by simp
      from Cons.IH[OF this] s' show ?thesis by (simp add: add.assoc)
    qed
  qed
qed

lemma document_steps_ok:
  assumes "(\<exists>p. s = doc_searching p) \<or> (doc s \<and> 0 \<le> doc_start s \<and> doc_start s \<le> doc_index s)"
  shows "outcome_ok (doc_index s + int (length xs)) (document_steps (Next s) xs)"
  using assms
proof (induction xs arbitrary: s)
  case Nil
  show ?case by simp
next
  case (Cons c cs)
  from Cons.prems consider (search) p where "s = doc_searching p"
    | (armed) "doc s" "0 \<le> doc_start s" "doc_start s \<le> doc_index s" by blast
  then show ?case
  proof cases
    case search
    let ?s' = "if lastn 16 (p @ [c]) = doc_commands ! 0
           then doc_in_keyword (lastn 16 (p @ [c])) [c]
                  (int (length p) + 1 - 16) (int (length p) + 1)
           else doc_searching (p @ [c])"
    have body: "document_body c s = Next ?s'"
      unfolding search by (rule document_body_searching)
    have ix: "doc_index ?s' = doc_index s + 1"
      by (simp add: search doc_searching_def doc_in_keyword_def)
    have "(\<exists>q. ?s' = doc_searching q) \<or>
          (doc ?s' \<and> 0 \<le> doc_start ?s' \<and> doc_start ?s' \<le> doc_index ?s')"
      using lastn_eq_length[of 16 "p @ [c]" "doc_commands ! 0"]
      by (auto simp: doc_in_keyword_def doc_commands_facts)
    from Cons.IH[OF this] show ?thesis
      by (simp add: body ix add.assoc)
  next
    case armed
    from document_body_armed[OF armed(1), of c] show ?thesis
    proof
      assume "document_body c s = Return True (doc_start s) (doc_index s + 1)"
      with armed show ?thesis by simp
    next
      assume "\<exists>s'. document_body c s = Next s' \<and> doc s' \<and> doc_start s' = doc_start s \<and>
               doc_index s' = doc_index s + 1"
      then obtain s' where s': "document_body c s = Next s'" "doc s'"
        "doc_start s' = doc_start s" "doc_index s' = doc_index s + 1" by blast
      with armed have "(\<exists>p. s' = doc_searching p) \<or>
          (doc s' \<and> 0 \<le> doc_start s' \<and> doc_start s' \<le> doc_index s')" by simp
      from Cons.IH[OF this] s' show ?thesis by (simp add: add.assoc)
    qed
  qed
qed

lemma at_stop_ok:
  "outcome_ok (int n) out \<Longrightarrow> \<exists>r. at_stop out = Inr r \<and> scan_result_ok n r"
  by (cases out) (simp_all add: scan_result_ok_def)

lemma check_abstract_ok: "\<exists>r. check_abstract d = Inr r \<and> scan_result_ok (length d) r"
proof -
  have "outcome_ok (index (searching []) + int (length d))
          (abstract_steps (Next (searching [])) d)"
    by (rule abstract_steps_ok) blast
  then have "outcome_ok (int (length d)) (abstract_steps (Next abstract_init) d)"
    by (simp add: abstract_init_searching) (simp add: searching_def)
  then show ?thesis unfolding check_abstract_steps by (rule at_stop_ok)
qed

lemma check_document_ok: "\<exists>r. check_document d = Inr r \<and> scan_result_ok (length d) r"
proof -
  have "outcome_ok (doc_index (doc_searching []) + int (length d))
          (document_steps (Next (doc_searching [])) d)"
    by (rule document_steps_ok) blast
  then have "outcome_ok (int (length d)) (document_steps (Next document_init) d)"
    by (simp add: document_init_searching) (simp add: doc_searching_def)
  then show ?thesis unfolding check_document_steps by (rule at_stop_ok)
qed

subsection \<open>Iteration budget\<close>

lemma abstract_fuel_enough:
  "length (tex_contents g) - gen_i g < n \<Longrightarrow> abstract_fuel n s g = Some (abstract_loop s g)"
proof (induction n arbitrary: s g)
  case 0
  then show ?case by simp
next
  case (Suc n)
  show ?case
  proof (cases "next_char g")
    case None
    then show ?thesis by (subst abstract_loop.simps) simp
  next
    case (Some a)
    obtain c g' where a: "a = (c, g')" by (cases a)
    with Some have "length (tex_contents g') - gen_i g' < length (tex_contents g) - gen_i g"
      by (auto simp: next_char_def split: if_splits)
    with Suc.prems have "length (tex_contents g') - gen_i g' < n" by simp
    note IH = Suc.IH[OF this]
    show ?thesis
      by (subst abstract_loop.simps) (simp add: Some a IH split: outcome.split)
  qed
qed

lemma document_fuel_enough:
  "length (tex_contents g) - gen_i g < n \<Longrightarrow> document_fuel n s g = Some (document_loop s g)"
proof (induction n arbitrary: s g)
  case 0
  then show ?case by simp
next
  case (Suc n)
  show ?case
  proof (cases "next_char g")
    case None
    then show ?thesis by (subst document_loop.simps) simp
  next
    case (Some a)
    obtain c g' where a: "a = (c, g')" by (cases a)
    with Some have "length (tex_contents g') - gen_i g' < length (tex_contents g) - gen_i g"
      by (auto simp: next_char_def split: if_splits)
    with Suc.prems have "length (tex_contents g') - gen_i g' < n" by simp
    note IH = Suc.IH[OF this]
    show ?thesis
      by (subst document_loop.simps) (simp add: Some a IH split: outcome.split)
  qed
qed

subsection \<open>States before a command is recognised\<close>

lemma abstract_steps_Nil: "abstract_steps out [] = out"
  by (cases out) simp_all

lemma document_steps_Nil: "document_steps out [] = out"
  by (cases out) simp_all

lemma abstract_steps_snoc:
  "abstract_steps out (p @ [c]) =
     (case abstract_steps out p of Next s \<Rightarrow> abstract_body c s | r \<Rightarrow> r)"
  by (simp add: abstract_steps_append abstract_steps_Nil split: outcome.split)

lemma unarmed_is_searching:
  "abstract_steps (Next abstract_init) p = Next s \<Longrightarrow> \<not> abstract s \<Longrightarrow> s = searching p"
proof (induction p arbitrary: s rule: rev_induct)
  case Nil
  then show ?case by (simp add: abstract_init_searching)
next
  case (snoc c q)
  from snoc.prems(1) obtain s0 where s0: "abstract_steps (Next abstract_init) q = Next s0"
    and body: "abstract_body c s0 = Next s"
    by (auto simp: abstract_steps_snoc split: outcome.splits)
  have "\<not> abstract s0"
  proof
    assume "abstract s0"
    from abstract_body_armed[OF this, of c] body snoc.prems(2) show False by auto
  qed
  with snoc.IH[OF s0] have "s0 = searching q" by simp
  with body snoc.prems(2) show ?case
    by (auto simp: abstract_body_searching in_keyword_def in_braces_def split: if_splits)
qed

subsection \<open>The scanner over other pattern lists\<close>






lemma abstract_loop_with_steps:
  "abstract_loop_with cmds s g =
     at_stop (abstract_steps_with cmds (Next s) (drop (gen_i g) (tex_contents g)))"
proof (induction cmds s g rule: abstract_loop_with.induct)
  case (1 cmds s g)
  show ?case
  proof (cases "gen_i g < length (tex_contents g)")
    case False
    then show ?thesis by (subst abstract_loop_with.simps) (simp add: next_char_def)
  next
    case True
    let ?c = "tex_contents g ! gen_i g" and ?g = "g\<lparr>gen_i := gen_i g + 1\<rparr>"
    have nx: "next_char g = Some (?c, ?g)" using True by (simp add: next_char_def)
    have dr: "drop (gen_i g) (tex_contents g) = ?c # drop (gen_i ?g) (tex_contents ?g)"
      using True by (simp add: Cons_nth_drop_Suc)
    show ?thesis
    proof (cases "abstract_body_with cmds ?c s")
      case (Next s')
      from "1.IH"[OF nx refl Next] Next nx dr show ?thesis
        by (subst abstract_loop_with.simps) simp
    qed (subst abstract_loop_with.simps, simp add: nx dr)+
  qed
qed












section \<open>The worked examples\<close>

text \<open>
  C6. On the 41 characters \<^verbatim>\<open>\begin{abstract}Hello world\end{abstract}\<close> the abstract
  scanner returns \<^verbatim>\<open>(True, 0, 41)\<close>.
\<close>

theorem check_abstract_hello_world:
  "length (CHR 0x5C # ''begin{abstract}Hello world'' @ CHR 0x5C # ''end{abstract}'') = 41 \<and>
   check_abstract (CHR 0x5C # ''begin{abstract}Hello world'' @ CHR 0x5C # ''end{abstract}'')
     = Inr (True, 0, 41)"
  by code_simp

text \<open>
  C7. The claim that \<^verbatim>\<open>check_document\<close> returns \<^verbatim>\<open>(True, 0, 36)\<close> on the 37 characters
  \<^verbatim>\<open>\begin{document}content\end{document}\<close> does not hold.
\<close>

theorem check_document_content_not_36:
  "check_document (CHR 0x5C # ''begin{document}content'' @ CHR 0x5C # ''end{document}'')
     \<noteq> Inr (True, 0, 36)"
  by code_simp

text \<open>
  C7, amended. On that input \<^verbatim>\<open>check_document\<close> returns \<^verbatim>\<open>(True, 0, 37)\<close>: the end
  offset is the number of characters read when the closing brace arrives, one more than
  the position of that brace counted from zero.
\<close>

theorem check_document_content:
  "length (CHR 0x5C # ''begin{document}content'' @ CHR 0x5C # ''end{document}'') = 37 \<and>
   (CHR 0x5C # ''begin{document}content'' @ CHR 0x5C # ''end{document}'') ! 36 = CHR ''}'' \<and>
   check_document (CHR 0x5C # ''begin{document}content'' @ CHR 0x5C # ''end{document}'')
     = Inr (True, 0, 37)"
  by code_simp

section \<open>Located abstracts\<close>

text \<open>
  C1. For a document with \<^verbatim>\<open>\begin{abstract}\<close> followed by \<^verbatim>\<open>\end{abstract}\<close> the claim
  gives \<open>start\<close> as the index of the opening backslash and \<open>end\<close> as the index of the
  closing brace. In \<^verbatim>\<open>x\begin{abstract}y\end{abstract}z\<close> the backslash is character 1 and
  the closing brace is character 31, but the scanner does not return \<^verbatim>\<open>(True, 1, 31)\<close>.
\<close>

theorem check_abstract_end_not_brace_index:
  "(CHR ''x'' # CHR 0x5C # ''begin{abstract}y'' @ CHR 0x5C # ''end{abstract}z'') ! 1 = CHR 0x5C \<and>
   (CHR ''x'' # CHR 0x5C # ''begin{abstract}y'' @ CHR 0x5C # ''end{abstract}z'') ! 31 = CHR ''}'' \<and>
   check_abstract (CHR ''x'' # CHR 0x5C # ''begin{abstract}y'' @ CHR 0x5C # ''end{abstract}z'')
     \<noteq> Inr (True, 1, 31)"
  by code_simp

text \<open>
  C1, amended. Let the document be \<open>pre\<close>, \<^verbatim>\<open>\begin{abstract}\<close>, \<open>body\<close>,
  \<^verbatim>\<open>\end{abstract}\<close>, \<open>post\<close>, where neither opening literal occurs in \<open>pre\<close> and
  \<^verbatim>\<open>\end{abstract}\<close> does not occur in \<open>body\<close>. Then \<^verbatim>\<open>check_abstract\<close> returns found,
  \<open>start\<close> is the zero-based index of the opening backslash, and \<open>end\<close> is one more than
  the zero-based index of the closing brace of \<^verbatim>\<open>\end{abstract}\<close>.
\<close>

theorem check_abstract_begin_end:
  assumes "\<not> sublist (commands ! 0) pre" and "\<not> sublist (commands ! 1) pre"
    and "\<not> sublist (terminates ! 0) body"
  shows "check_abstract (pre @ commands ! 0 @ body @ terminates ! 0 @ post)
           = Inr (True, int (length pre), int (length pre + 16 + length body + 13) + 1) \<and>
         (pre @ commands ! 0 @ body @ terminates ! 0 @ post) ! length pre = CHR 0x5C \<and>
         (pre @ commands ! 0 @ body @ terminates ! 0 @ post) ! (length pre + 16 + length body + 13)
           = CHR ''}''"
proof -
  let ?d = "pre @ commands ! 0 @ body @ terminates ! 0 @ post"
  have "abstract_steps (Next abstract_init) ((pre @ commands ! 0) @ body @ terminates ! 0 @ post)
          = Return True (int (length pre)) (int (length pre) + 16 + int (length body) + 14)"
    unfolding abstract_steps_append[of _ "pre @ commands ! 0"]
      reach_begin_abstract[OF assms(1,2)]
    by (rule keyword_finish[OF assms(3)])
  then have res: "check_abstract ?d
      = Inr (True, int (length pre), int (length pre + 16 + length body + 13) + 1)"
    by (simp add: check_abstract_steps)
  have "?d = pre @ CHR 0x5C # (tl (commands ! 0) @ body @ terminates ! 0 @ post)"
    by (simp add: commands_def)
  then have open_at: "?d ! length pre = CHR 0x5C"
    by (simp only: nth_append_length)
  have "?d = (pre @ commands ! 0 @ body @ butlast (terminates ! 0)) @ CHR ''}'' # post"
    by (simp add: terminates_def)
  moreover have "length (pre @ commands ! 0 @ body @ butlast (terminates ! 0))
                   = length pre + 16 + length body + 13"
    by (simp add: commands_facts)
  ultimately have close_at: "?d ! (length pre + 16 + length body + 13) = CHR ''}''"
    by (metis nth_append_length)
  from res open_at close_at show ?thesis by blast
qed

theorem check_abstract_begin_end_witness:
  "check_abstract (CHR ''x'' # CHR 0x5C # ''begin{abstract}y'' @ CHR 0x5C # ''end{abstract}z'')
     = Inr (True, 1, 32)"
proof -
  have h: "\<not> sublist (commands ! 0) ''x''" "\<not> sublist (commands ! 1) ''x''"
    "\<not> sublist (terminates ! 0) ''y''"
    by code_simp+
  from check_abstract_begin_end[OF h, of "''z''"] show ?thesis
    by (simp add: commands_def terminates_def)
qed

text \<open>
  C2. On \<^verbatim>\<open>\abstract{Nested {braces} here}\<close> the claim gives \<open>end\<close> as 30, the position of
  the final brace. The scanner does not return that offset.
\<close>

theorem check_abstract_nested_not_30:
  "check_abstract (CHR 0x5C # ''abstract{Nested {braces} here}'') \<noteq> Inr (True, 0, 30)"
  by code_simp

text \<open>
  C2, amended. Let the document be \<open>pre\<close>, \<^verbatim>\<open>\abstract{\<close>, \<open>content\<close>, a closing brace,
  \<open>post\<close>, where neither opening literal occurs in \<open>pre\<close> and \<open>content\<close> has balanced
  braces. Then \<^verbatim>\<open>check_abstract\<close> returns found, \<open>start\<close> is the zero-based index of the
  backslash, and \<open>end\<close> is one more than the zero-based index of the brace after
  \<open>content\<close>, the one that brings the count back to zero.
\<close>

theorem check_abstract_brace_end:
  assumes "\<not> sublist (commands ! 0) pre" and "\<not> sublist (commands ! 1) pre"
    and "inner_balanced content"
  shows "check_abstract (pre @ commands ! 1 @ content @ ''}'' @ post)
           = Inr (True, int (length pre), int (length pre + 10 + length content) + 1) \<and>
         (pre @ commands ! 1 @ content @ ''}'' @ post) ! (length pre + 10 + length content)
           = CHR ''}''"
proof -
  let ?d = "pre @ commands ! 1 @ content @ ''}'' @ post"
  let ?ws = "[lastn 16 (pre @ commands ! 1), lastn 10 (pre @ commands ! 1)]"
  from assms(3) have so: "stays_open 1 content" and bal: "brace_balance content = 0"
    by (simp_all add: inner_balanced_def)
  have "abstract_steps (Next abstract_init) ((pre @ commands ! 1) @ content @ [CHR ''}''] @ post)
          = Return True (int (length pre)) (int (length pre) + 10 + int (length content) + 1)"
    unfolding abstract_steps_append[of _ "pre @ commands ! 1"]
      reach_abstract_brace[OF assms(1,2)]
      abstract_steps_append[of _ content] brace_steps[OF so] bal
    by (simp add: abstract_body_in_braces brace_step_def)
  then have res: "check_abstract ?d
      = Inr (True, int (length pre), int (length pre + 10 + length content) + 1)"
    by (simp add: check_abstract_steps)
  have "?d = (pre @ commands ! 1 @ content) @ CHR ''}'' # post"
    by simp
  moreover have "length (pre @ commands ! 1 @ content) = length pre + 10 + length content"
    by (simp add: commands_facts)
  ultimately have "?d ! (length pre + 10 + length content) = CHR ''}''"
    by (metis nth_append_length)
  with res show ?thesis by blast
qed

theorem check_abstract_brace_end_witness:
  "check_abstract (CHR 0x5C # ''abstract{Nested {braces} here}'') = Inr (True, 0, 31) \<and>
   (CHR 0x5C # ''abstract{Nested {braces} here}'') ! 30 = CHR ''}''"
proof -
  have h: "\<not> sublist (commands ! 0) []" "\<not> sublist (commands ! 1) []"
    "inner_balanced ''Nested {braces} here''"
    by code_simp+
  from check_abstract_brace_end[OF h, of "[]"] show ?thesis
    by (simp add: commands_def)
qed

section \<open>The result invariant\<close>

text \<open>
  C3. Every triple returned by \<^verbatim>\<open>check_abstract\<close> or \<^verbatim>\<open>check_document\<close> satisfies the
  invariant of \<^verbatim>\<open>ScanResult\<close>: without a match \<open>start\<close> and \<open>end\<close> are both \<open>-1\<close>; with
  a match \<open>0 \<le> start < end \<le> length\<close> of the document. Neither scanner raises.
\<close>

theorem scan_results_well_formed:
  "(\<exists>r. check_abstract d = Inr r \<and> scan_result_ok (length d) r) \<and>
   (\<exists>r. check_document d = Inr r \<and> scan_result_ok (length d) r)"
  using check_abstract_ok[of d] check_document_ok[of d] by blast

theorem scan_results_well_formed_witness:
  "check_abstract (CHR 0x5C # ''abstract{a}'') = Inr (True, 0, 12) \<and>
   scan_result_ok (length (CHR 0x5C # ''abstract{a}'')) (True, 0, 12) \<and>
   check_document (CHR 0x5C # ''abstract{a}'') = Inr (False, -1, -1) \<and>
   scan_result_ok (length (CHR 0x5C # ''abstract{a}'')) (False, -1, -1)"
proof -
  have a: "check_abstract (CHR 0x5C # ''abstract{a}'') = Inr (True, 0, 12)"
    and b: "check_document (CHR 0x5C # ''abstract{a}'') = Inr (False, -1, -1)"
    by code_simp+
  from scan_results_well_formed[of "CHR 0x5C # ''abstract{a}''"] show ?thesis
    unfolding a b by simp
qed

section \<open>Sentinel results\<close>

text \<open>
  C4. The claim reads: whenever an opening literal occurs and its terminator is not met
  before the end of the string, the result is \<^verbatim>\<open>(False, -1, -1)\<close>. In
  \<^verbatim>\<open>\abstract{x}\begin{abstract}\<close> the literal \<^verbatim>\<open>\begin{abstract}\<close> occurs and no
  \<^verbatim>\<open>\end{abstract}\<close> follows, yet the scanner reports the earlier \<^verbatim>\<open>\abstract{x}\<close> as
  found.
\<close>

theorem unterminated_after_other_opening:
  "sublist (commands ! 0) (CHR 0x5C # ''abstract{x}'' @ CHR 0x5C # ''begin{abstract}'') \<and>
   \<not> sublist (terminates ! 0) (CHR 0x5C # ''abstract{x}'' @ CHR 0x5C # ''begin{abstract}'') \<and>
   check_abstract (CHR 0x5C # ''abstract{x}'' @ CHR 0x5C # ''begin{abstract}'')
     \<noteq> Inr (False, -1, -1)"
  by code_simp

text \<open>
  C4, amended. When no configured opening literal occurs before an opening literal, so that
  it is the one the scanner arms, and its terminator is never met before the end of the
  string, the result is \<^verbatim>\<open>(False, -1, -1)\<close>: for \<^verbatim>\<open>check_abstract\<close> when no
  \<^verbatim>\<open>\end{abstract}\<close> follows \<^verbatim>\<open>\begin{abstract}\<close>, or when the brace count stays positive
  after \<^verbatim>\<open>\abstract{\<close>; for \<^verbatim>\<open>check_document\<close> when no \<^verbatim>\<open>\end{document}\<close> follows the
  first \<^verbatim>\<open>\begin{document}\<close>. In particular a document that is exactly an opening literal
  is reported as not found.
\<close>

theorem unterminated_is_not_found:
  "(\<forall>pre rest. \<not> sublist (commands ! 0) pre \<and> \<not> sublist (commands ! 1) pre \<and>
       \<not> sublist (terminates ! 0) rest \<longrightarrow>
       check_abstract (pre @ commands ! 0 @ rest) = Inr (False, -1, -1)) \<and>
   (\<forall>pre rest. \<not> sublist (commands ! 0) pre \<and> \<not> sublist (commands ! 1) pre \<and>
       stays_open 1 rest \<longrightarrow>
       check_abstract (pre @ commands ! 1 @ rest) = Inr (False, -1, -1)) \<and>
   (\<forall>pre rest. \<not> sublist (doc_commands ! 0) pre \<and> \<not> sublist (doc_terminates ! 0) rest \<longrightarrow>
       check_document (pre @ doc_commands ! 0 @ rest) = Inr (False, -1, -1)) \<and>
   check_abstract (commands ! 0) = Inr (False, -1, -1) \<and>
   check_abstract (commands ! 1) = Inr (False, -1, -1) \<and>
   check_document (doc_commands ! 0) = Inr (False, -1, -1)"
proof -
  have kw: "check_abstract (pre @ commands ! 0 @ rest) = Inr (False, -1, -1)"
    if "\<not> sublist (commands ! 0) pre" "\<not> sublist (commands ! 1) pre"
      "\<not> sublist (terminates ! 0) rest" for pre rest
  proof -
    have "abstract_steps (Next abstract_init) ((pre @ commands ! 0) @ rest)
            = Next (in_keyword [lastn 16 (pre @ commands ! 0), lastn 10 (pre @ commands ! 0)]
                      ([CHR ''}''] @ rest) (int (length pre))
                      (int (length pre) + 16 + int (length rest)))"
      unfolding abstract_steps_append[of _ "pre @ commands ! 0"]
        reach_begin_abstract[OF that(1,2)]
      by (rule keyword_unfinished[OF that(3)])
    then show ?thesis by (simp add: check_abstract_steps)
  qed
  have br: "check_abstract (pre @ commands ! 1 @ rest) = Inr (False, -1, -1)"
    if "\<not> sublist (commands ! 0) pre" "\<not> sublist (commands ! 1) pre"
      "stays_open 1 rest" for pre rest
  proof -
    have "abstract_steps (Next abstract_init) ((pre @ commands ! 1) @ rest)
            = Next (in_braces [lastn 16 (pre @ commands ! 1), lastn 10 (pre @ commands ! 1)]
                      (1 + brace_balance rest) (int (length pre))
                      (int (length pre) + 10 + int (length rest)))"
      unfolding abstract_steps_append[of _ "pre @ commands ! 1"]
        reach_abstract_brace[OF that(1,2)]
      by (rule brace_steps[OF that(3)])
    then show ?thesis by (simp add: check_abstract_steps)
  qed
  have dc: "check_document (pre @ doc_commands ! 0 @ rest) = Inr (False, -1, -1)"
    if "\<not> sublist (doc_commands ! 0) pre" "\<not> sublist (doc_terminates ! 0) rest" for pre rest
  proof -
    have "document_steps (Next document_init) ((pre @ doc_commands ! 0) @ rest)
            = Next (doc_in_keyword (lastn 16 (pre @ doc_commands ! 0))
                      ([CHR ''}''] @ rest) (int (length pre))
                      (int (length pre) + 16 + int (length rest)))"
      unfolding document_steps_append[of _ "pre @ doc_commands ! 0"]
        reach_begin_document[OF that(1)]
      by (rule doc_keyword_unfinished[OF that(2)])
    then show ?thesis by (simp add: check_document_steps)
  qed
  have "check_abstract (commands ! 0) = Inr (False, -1, -1)"
    "check_abstract (commands ! 1) = Inr (False, -1, -1)"
    "check_document (doc_commands ! 0) = Inr (False, -1, -1)"
    by code_simp+
  with kw br dc show ?thesis by blast
qed

theorem unterminated_is_not_found_witness:
  "check_abstract (''ab'' @ commands ! 0 @ ''some {text}'') = Inr (False, -1, -1) \<and>
   check_abstract (''ab'' @ commands ! 1 @ ''some {text}'') = Inr (False, -1, -1) \<and>
   check_document (''ab'' @ doc_commands ! 0 @ ''some {text}'') = Inr (False, -1, -1)"
proof -
  have h: "\<not> sublist (commands ! 0) ''ab''" "\<not> sublist (commands ! 1) ''ab''"
    "\<not> sublist (terminates ! 0) ''some {text}''" "stays_open 1 ''some {text}''"
    "\<not> sublist (doc_commands ! 0) ''ab''" "\<not> sublist (doc_terminates ! 0) ''some {text}''"
    by code_simp+
  from unterminated_is_not_found h show ?thesis by blast
qed

text \<open>
  C5. A document in which no configured opening literal occurs gives \<^verbatim>\<open>(False, -1, -1)\<close>
  as an ordinary return value: the model's result is on the \<open>Inr\<close> side, not a raised
  exception.
\<close>

theorem no_opening_is_not_found:
  "(\<not> sublist (commands ! 0) d \<and> \<not> sublist (commands ! 1) d \<longrightarrow>
      check_abstract d = Inr (False, -1, -1)) \<and>
   (\<not> sublist (doc_commands ! 0) d \<longrightarrow> check_document d = Inr (False, -1, -1))"
proof (intro conjI impI)
  assume a: "\<not> sublist (commands ! 0) d \<and> \<not> sublist (commands ! 1) d"
  then have n0: "\<not> sublist (commands ! 0) ([] @ d)" and n1: "\<not> sublist (commands ! 1) ([] @ d)"
    by simp_all
  have "abstract_steps (Next (searching [])) d = Next (searching ([] @ d))"
    by (rule search_steps)
       (use window_no_sublist[OF n0] window_no_sublist[OF n1] in \<open>simp add: commands_facts\<close>)
  then show "check_abstract d = Inr (False, -1, -1)"
    by (simp add: check_abstract_steps abstract_init_searching)
next
  assume "\<not> sublist (doc_commands ! 0) d"
  then have n0: "\<not> sublist (doc_commands ! 0) ([] @ d)" by simp
  have "document_steps (Next (doc_searching [])) d = Next (doc_searching ([] @ d))"
    by (rule doc_search_steps)
       (use window_no_sublist[OF n0] in \<open>simp add: doc_commands_facts\<close>)
  then show "check_document d = Inr (False, -1, -1)"
    by (simp add: check_document_steps document_init_searching)
qed

theorem no_opening_is_not_found_witness:
  "check_abstract ''no commands here'' = Inr (False, -1, -1) \<and>
   check_document ''no commands here'' = Inr (False, -1, -1)"
proof -
  have h: "\<not> sublist (commands ! 0) ''no commands here''"
    "\<not> sublist (commands ! 1) ''no commands here''"
    "\<not> sublist (doc_commands ! 0) ''no commands here''"
    by code_simp+
  from no_opening_is_not_found[of "''no commands here''"] h show ?thesis by blast
qed

section \<open>Order of the patterns\<close>




section \<open>Termination\<close>

text \<open>
  C10. Both scanners return on every finite string. Each iteration takes one character from
  the generator, whose counter moves forward by one, so a budget of one iteration per
  character plus one for the final \<^verbatim>\<open>StopIteration\<close> is enough for the loop to
  return, and what it returns is a triple.
\<close>

theorem scanners_return_within_length:
  "abstract_fuel (Suc (length d)) abstract_init (char_gen d) = Some (check_abstract d) \<and>
   document_fuel (Suc (length d)) document_init (char_gen d) = Some (check_document d) \<and>
   (\<exists>r. check_abstract d = Inr r) \<and> (\<exists>r. check_document d = Inr r) \<and>
   (case next_char \<lparr>tex_contents = d, gen_i = k\<rparr> of
      None \<Rightarrow> length d \<le> k
    | Some (c, g') \<Rightarrow> k < length d \<and> c = d ! k \<and> g' = \<lparr>tex_contents = d, gen_i = Suc k\<rparr>)"
proof -
  have "abstract_fuel (Suc (length d)) abstract_init (char_gen d) = Some (check_abstract d)"
    unfolding check_abstract_def by (rule abstract_fuel_enough) (simp add: char_gen_def)
  moreover
  have "document_fuel (Suc (length d)) document_init (char_gen d) = Some (check_document d)"
    unfolding check_document_def by (rule document_fuel_enough) (simp add: char_gen_def)
  moreover have "\<exists>r. check_abstract d = Inr r" using check_abstract_ok[of d] by blast
  moreover have "\<exists>r. check_document d = Inr r" using check_document_ok[of d] by blast
  moreover have "case next_char \<lparr>tex_contents = d, gen_i = k\<rparr> of
      None \<Rightarrow> length d \<le> k
    | Some (c, g') \<Rightarrow> k < length d \<and> c = d ! k \<and> g' = \<lparr>tex_contents = d, gen_i = Suc k\<rparr>"
    by (auto simp: next_char_def)
  ultimately show ?thesis by blast
qed

end
